theory Spec2Isabelle
  imports Main "HOL-Library.Word"
begin

unbundle bit_operations_syntax

section \<open>Common data model\<close>

text \<open>
  Both programs are Python. A \<^verbatim>\<open>bytes\<close> object is a list of bytes, every element
  an integer in \<open>0..255\<close>: a list of \<open>8 word\<close>. Python integers are unbounded and
  are modelled as \<open>int\<close>, with every mask (\<^verbatim>\<open>& 0xFFFFFFFF\<close>) and shift of the
  source written out (\<open>push_bit n x\<close> is \<^verbatim>\<open>x << n\<close>, \<open>drop_bit n x\<close> is
  \<^verbatim>\<open>x >> n\<close>, \<open>NOT x\<close> is \<^verbatim>\<open>~x\<close>). Every exception the modelled code
  can raise is a value of \<open>error\<close>; a function that can raise returns
  \<open>error + 'a\<close>, with \<open>Inl\<close> for the exception.

  The optional parameters of the source (\<^verbatim>\<open>block_size=8\<close>, \<^verbatim>\<open>rounds=16\<close>) are
  never overridden anywhere in the repository; the model fixes them at these
  defaults.
\<close>

type_synonym byte = "8 word"
type_synonym bytes = "byte list"

datatype error =
    ValueError          \<comment> \<open>raised by \<^verbatim>\<open>pkcs7_unpad\<close> and \<^verbatim>\<open>load_key\<close>\<close>
  | StructError         \<comment> \<open>\<^verbatim>\<open>struct.error\<close>: wrong buffer length or value out of range\<close>
  | IndexError          \<comment> \<open>index out of range\<close>
  | UnicodeDecodeError  \<comment> \<open>\<^verbatim>\<open>bytes.decode\<close> on ill-formed input\<close>

text \<open>Running a loop body that can raise over a list, collecting the results.\<close>

fun map_err :: "('a \<Rightarrow> error + 'b) \<Rightarrow> 'a list \<Rightarrow> error + 'b list" where
  "map_err f [] = Inr []"
| "map_err f (x # xs) =
     (case f x of
        Inl e \<Rightarrow> Inl e
      | Inr y \<Rightarrow> (case map_err f xs of Inl e \<Rightarrow> Inl e | Inr ys \<Rightarrow> Inr (y # ys)))"

text \<open>A \<^verbatim>\<open>for i in ...\<close> loop that updates a state and can raise.\<close>

fun for_each :: "nat list \<Rightarrow> (nat \<Rightarrow> 's \<Rightarrow> error + 's) \<Rightarrow> 's \<Rightarrow> error + 's" where
  "for_each [] body st = Inr st"
| "for_each (i # is) body st =
     (case body i st of Inl e \<Rightarrow> Inl e | Inr st' \<Rightarrow> for_each is body st')"

text \<open>
  Python slices with a negated bound. \<^verbatim>\<open>data[-p:]\<close> is the last \<open>p\<close> elements
  (all of \<open>data\<close> when \<open>p\<close> exceeds its length), but for \<open>p = 0\<close> it is
  \<^verbatim>\<open>data[0:]\<close>, the whole of \<open>data\<close>. \<^verbatim>\<open>data[:-p]\<close> drops the last \<open>p\<close>
  elements, but for \<open>p = 0\<close> it is \<^verbatim>\<open>data[:0]\<close>, the empty sequence.
\<close>

definition slice_from_neg :: "nat \<Rightarrow> 'a list \<Rightarrow> 'a list" where
  "slice_from_neg p data = (if p = 0 then data else drop (length data - p) data)"

definition slice_to_neg :: "nat \<Rightarrow> 'a list \<Rightarrow> 'a list" where
  "slice_to_neg p data = (if p = 0 then [] else take (length data - p) data)"

text \<open>
  \<^verbatim>\<open>[data[i:i+n] for i in range(0, len(data), n)]\<close>: consecutive slices of
  \<open>n\<close> elements, the last one shorter when the length is not a multiple of \<open>n\<close>.
  The step \<open>n\<close> is 8 or 4 everywhere in the source; a step of 0, which Python
  rejects, does not occur.
\<close>

function chunks :: "nat \<Rightarrow> 'a list \<Rightarrow> 'a list list" where
  "chunks n data =
     (if n = 0 \<or> data = [] then [] else take n data # chunks n (drop n data))"
  by pat_completeness auto
termination
  by (relation "measure (\<lambda>(n, data). length data)") auto

declare chunks.simps [simp del]

text \<open>
  \<^verbatim>\<open>struct\<close>: an unsigned integer is read from its bytes least significant
  byte first (\<^verbatim>\<open><\<close>) or most significant byte first (\<^verbatim>\<open>>\<close>); packing a
  value outside the range of the format raises \<^verbatim>\<open>struct.error\<close>, and so does
  unpacking a buffer whose length is not the size of the format.
\<close>

fun le_to_int :: "bytes \<Rightarrow> int" where
  "le_to_int [] = 0"
| "le_to_int (b # bs) = uint b + 256 * le_to_int bs"

fun int_to_le :: "nat \<Rightarrow> int \<Rightarrow> bytes" where
  "int_to_le 0 x = []"
| "int_to_le (Suc n) x = word_of_int (x mod 256) # int_to_le n (x div 256)"

definition unpack_le_II :: "bytes \<Rightarrow> error + int \<times> int" where
  "unpack_le_II buf =
     (if length buf \<noteq> 8 then Inl StructError
      else Inr (le_to_int (take 4 buf), le_to_int (drop 4 buf)))"

definition pack_le_II :: "int \<Rightarrow> int \<Rightarrow> error + bytes" where
  "pack_le_II a b =
     (if 0 \<le> a \<and> a < 2 ^ 32 \<and> 0 \<le> b \<and> b < 2 ^ 32
      then Inr (int_to_le 4 a @ int_to_le 4 b) else Inl StructError)"

definition unpack_le_8I :: "bytes \<Rightarrow> error + int list" where
  "unpack_le_8I buf =
     (if length buf \<noteq> 32 then Inl StructError
      else Inr (map le_to_int (chunks 4 buf)))"

definition unpack_be_Q :: "bytes \<Rightarrow> error + int" where
  "unpack_be_Q buf =
     (if length buf \<noteq> 8 then Inl StructError else Inr (le_to_int (rev buf)))"

definition pack_be_Q :: "int \<Rightarrow> error + bytes" where
  "pack_be_Q x =
     (if 0 \<le> x \<and> x < 2 ^ 64 then Inr (rev (int_to_le 8 x)) else Inl StructError)"

text \<open>
  A Python \<^verbatim>\<open>str\<close> is represented by the bytes of its UTF-8 encoding, so
  \<^verbatim>\<open>text.encode('utf-8')\<close> is the identity on the representation, and
  \<^verbatim>\<open>data.decode('utf-8')\<close> (also \<^verbatim>\<open>data.decode()\<close>, whose default is
  UTF-8) succeeds exactly on the well-formed byte sequences (Unicode, table
  3-7: no overlong forms, no surrogates, nothing above U+10FFFF, no sequence
  cut short at the end) and raises UnicodeDecodeError on the others.
\<close>

definition utf8_cont :: "byte \<Rightarrow> bool" where
  "utf8_cont b = (0x80 \<le> b \<and> b \<le> 0xBF)"

fun utf8_valid :: "bytes \<Rightarrow> bool" where
  "utf8_valid [] = True"
| "utf8_valid (b0 # bs) =
     (if b0 \<le> 0x7F then utf8_valid bs
      else if 0xC2 \<le> b0 \<and> b0 \<le> 0xDF then
        (case bs of
           b1 # r \<Rightarrow> utf8_cont b1 \<and> utf8_valid r
         | _ \<Rightarrow> False)
      else if 0xE0 \<le> b0 \<and> b0 \<le> 0xEF then
        (case bs of
           b1 # b2 # r \<Rightarrow>
             (if b0 = 0xE0 then 0xA0 \<le> b1 \<and> b1 \<le> 0xBF
              else if b0 = 0xED then 0x80 \<le> b1 \<and> b1 \<le> 0x9F
              else utf8_cont b1)
             \<and> utf8_cont b2 \<and> utf8_valid r
         | _ \<Rightarrow> False)
      else if 0xF0 \<le> b0 \<and> b0 \<le> 0xF4 then
        (case bs of
           b1 # b2 # b3 # r \<Rightarrow>
             (if b0 = 0xF0 then 0x90 \<le> b1 \<and> b1 \<le> 0xBF
              else if b0 = 0xF4 then 0x80 \<le> b1 \<and> b1 \<le> 0x8F
              else utf8_cont b1)
             \<and> utf8_cont b2 \<and> utf8_cont b3 \<and> utf8_valid r
         | _ \<Rightarrow> False)
      else False)"

definition decode_utf8 :: "bytes \<Rightarrow> error + bytes" where
  "decode_utf8 bytes_data =
     (if utf8_valid bytes_data then Inr bytes_data else Inl UnicodeDecodeError)"

section \<open>lab3: the GOST 28147-89 style cipher\<close>

subsection \<open>Padding\<close>

text \<open>
  \<^verbatim>\<open>pkcs7_pad(data, block_size=8)\<close>: \<^verbatim>\<open>bytes([pad_len] * pad_len)\<close> is
  \<open>pad_len\<close> bytes of value \<open>pad_len\<close>, which is between 1 and 8.
\<close>

definition pkcs7_pad :: "bytes \<Rightarrow> bytes" where
  "pkcs7_pad data =
     (let pad_len = 8 - (length data mod 8)
      in data @ replicate pad_len (of_nat pad_len))"

text \<open>
  \<^verbatim>\<open>pkcs7_unpad(data)\<close>: \<^verbatim>\<open>data[-1]\<close> raises IndexError on the empty
  buffer; the check is \<^verbatim>\<open>pad_len > len(data) or any(p != pad_len for p in data[-pad_len:])\<close>.
\<close>

definition pkcs7_unpad :: "bytes \<Rightarrow> error + bytes" where
  "pkcs7_unpad data =
     (if data = [] then Inl IndexError
      else let pad_len = unat (last data)
           in if pad_len > length data
                 \<or> list_ex (\<lambda>p. unat p \<noteq> pad_len) (slice_from_neg pad_len data)
              then Inl ValueError
              else Inr (slice_to_neg pad_len data))"

subsection \<open>Substitution table and block cipher\<close>

definition SBOX :: "int list list" where
  "SBOX =
    [[4, 10, 9, 2, 13, 8, 0, 14, 6, 11, 1, 12, 7, 15, 5, 3],
     [14, 11, 4, 12, 6, 13, 15, 10, 2, 3, 8, 1, 0, 7, 5, 9],
     [5, 8, 1, 13, 10, 3, 4, 2, 14, 15, 12, 7, 6, 0, 9, 11],
     [7, 13, 10, 1, 0, 8, 9, 15, 14, 4, 6, 11, 2, 5, 3, 12],
     [12, 6, 15, 10, 2, 9, 1, 7, 4, 14, 0, 5, 11, 3, 8, 13],
     [11, 3, 6, 8, 15, 0, 1, 12, 2, 5, 14, 7, 9, 10, 4, 13],
     [8, 15, 2, 5, 12, 11, 7, 6, 0, 4, 14, 9, 10, 1, 13, 3],
     [10, 2, 7, 1, 13, 8, 15, 9, 12, 0, 5, 11, 6, 14, 3, 4]]"

text \<open>
  The body of the inner loop \<^verbatim>\<open>for j in range(8)\<close>, shared by
  \<^verbatim>\<open>gost_encrypt_block\<close> and \<^verbatim>\<open>gost_decrypt_block\<close>:
  \<^verbatim>\<open>s = (s & ~(0xF << (28 - j * 4))) | (SBOX[j][(s >> (28 - j * 4)) & 0xF] << (28 - j * 4))\<close>.
  For \<open>j < 8\<close> the shift \<open>28 - j * 4\<close> is not negative and both table
  indices are in range (\<open>j < 8\<close>, and the masked nibble is below 16).
\<close>

definition sbox_step :: "nat \<Rightarrow> int \<Rightarrow> int" where
  "sbox_step j s =
     (s AND NOT (push_bit (28 - j * 4) 0xF))
       OR push_bit (28 - j * 4) (SBOX ! j ! nat (drop_bit (28 - j * 4) s AND 0xF))"

definition sbox_loop :: "int \<Rightarrow> int" where
  "sbox_loop s = fold sbox_step [0..<8] s"

text \<open>
  The body of the outer loop, the same text in both functions. \<^verbatim>\<open>key[i % 8]\<close>
  raises IndexError when the key has fewer than \<open>i mod 8 + 1\<close> words.
\<close>

definition gost_round :: "int list \<Rightarrow> nat \<Rightarrow> int \<times> int \<Rightarrow> error + int \<times> int" where
  "gost_round key i st =
     (case st of (n1, n2) \<Rightarrow>
        if length key \<le> i mod 8 then Inl IndexError
        else let k = key ! (i mod 8);
                 s = (n1 + k) AND 0xFFFFFFFF;
                 s = sbox_loop s;
                 s = (push_bit 11 s OR drop_bit (32 - 11) s) AND 0xFFFFFFFF
             in Inr (n2 XOR s, n1))"

text \<open>\<^verbatim>\<open>gost_encrypt_block\<close>: rounds \<open>0, 1, ..., 31\<close>, then \<^verbatim>\<open>struct.pack('<II', n2, n1)\<close>.\<close>

definition gost_encrypt_block :: "bytes \<Rightarrow> int list \<Rightarrow> error + bytes" where
  "gost_encrypt_block block key =
     (case unpack_le_II block of
        Inl e \<Rightarrow> Inl e
      | Inr st \<Rightarrow>
          (case for_each [0..<32] (gost_round key) st of
             Inl e \<Rightarrow> Inl e
           | Inr (n1, n2) \<Rightarrow> pack_le_II n2 n1))"

text \<open>\<^verbatim>\<open>gost_decrypt_block\<close>: the same with \<^verbatim>\<open>range(31, -1, -1)\<close>, rounds \<open>31, 30, ..., 0\<close>.\<close>

definition gost_decrypt_block :: "bytes \<Rightarrow> int list \<Rightarrow> error + bytes" where
  "gost_decrypt_block block key =
     (case unpack_le_II block of
        Inl e \<Rightarrow> Inl e
      | Inr st \<Rightarrow>
          (case for_each (rev [0..<32]) (gost_round key) st of
             Inl e \<Rightarrow> Inl e
           | Inr (n1, n2) \<Rightarrow> pack_le_II n2 n1))"

subsection \<open>Key loading and buffer decryption\<close>

text \<open>
  \<^verbatim>\<open>load_key\<close>, from the contents \<open>key_data\<close> of the key file on (reading the
  file is outside the model): a length other than 32 raises ValueError, then
  \<^verbatim>\<open>struct.unpack('<8I', key_data)\<close>.
\<close>

definition load_key :: "bytes \<Rightarrow> error + int list" where
  "load_key key_data =
     (if length key_data \<noteq> 32 then Inl ValueError else unpack_le_8I key_data)"

text \<open>
  \<^verbatim>\<open>decrypt_file\<close> (its second definition, the one in force), from the
  contents of the key file and of the input file on; the result is what is
  written to the output file. The function catches every exception and writes
  nothing then; the model returns the exception that was caught.

  \<open>read_encrypted_data\<close> is the part of the body that obtains
  \<^verbatim>\<open>encrypted_data\<close>. The first 10 bytes of the file are decoded as UTF-8; when
  that succeeds the file is taken for base64 text, opened again in text mode,
  read and passed to \<^verbatim>\<open>base64.b64decode\<close>; when it raises UnicodeDecodeError
  the bytes of the file are the ciphertext. The two library calls of the text
  branch are parameters of the model: \<open>read_text\<close> is
  \<^verbatim>\<open>open(input_path, "r").read()\<close> as a function of the file's bytes (it
  depends on the platform's locale encoding and newline translation, and can
  raise) and \<open>b64decode\<close> is \<^verbatim>\<open>base64.b64decode\<close> on the text read (it
  raises \<^verbatim>\<open>binascii.Error\<close>, a ValueError, on malformed input).

  Then
  \<^verbatim>\<open>b"".join(gost_decrypt_block(encrypted_data[i:i+8], key) for i in range(0, len(encrypted_data), 8))\<close>
  decrypts the slices in order and stops at the first one that raises, and
  \<^verbatim>\<open>pkcs7_unpad\<close> is applied to the joined blocks. There is no check of the
  length of \<^verbatim>\<open>encrypted_data\<close> anywhere in the function.
\<close>

definition read_encrypted_data ::
    "(bytes \<Rightarrow> error + bytes) \<Rightarrow> (bytes \<Rightarrow> error + bytes) \<Rightarrow> bytes \<Rightarrow> error + bytes" where
  "read_encrypted_data read_text b64decode file =
     (let first_bytes = take 10 file;
          is_base64 = utf8_valid first_bytes
      in if is_base64
         then (case read_text file of Inl e \<Rightarrow> Inl e | Inr text \<Rightarrow> b64decode text)
         else Inr file)"

definition decrypt_file ::
    "(bytes \<Rightarrow> error + bytes) \<Rightarrow> (bytes \<Rightarrow> error + bytes) \<Rightarrow> bytes \<Rightarrow> bytes \<Rightarrow> error + bytes" where
  "decrypt_file read_text b64decode key_data file =
     (case load_key key_data of
        Inl e \<Rightarrow> Inl e
      | Inr key \<Rightarrow>
          (case read_encrypted_data read_text b64decode file of
             Inl e \<Rightarrow> Inl e
           | Inr encrypted_data \<Rightarrow>
               (case map_err (\<lambda>b. gost_decrypt_block b key) (chunks 8 encrypted_data) of
                  Inl e \<Rightarrow> Inl e
                | Inr blocks \<Rightarrow> pkcs7_unpad (concat blocks))))"

section \<open>lab2: the 16-round Feistel cipher\<close>

subsection \<open>Block cipher\<close>

definition split_block :: "int \<Rightarrow> int \<times> int" where
  "split_block block =
     (let left = drop_bit 32 block AND 0xFFFFFFFF;
          right = block AND 0xFFFFFFFF
      in (left, right))"

definition combine_halves :: "int \<Rightarrow> int \<Rightarrow> int" where
  "combine_halves left right = push_bit 32 left OR right"

definition feistel_function :: "int \<Rightarrow> int \<Rightarrow> int" where
  "feistel_function half_block round_key =
     (let result = half_block XOR round_key;
          result = (drop_bit 8 result OR push_bit 24 result) AND 0xFFFFFFFF;
          result = (push_bit 3 result OR drop_bit 29 result) AND 0xFFFFFFFF;
          result = result XOR (push_bit 5 round_key AND 0xFFFFFFFF)
      in result)"

text \<open>
  \<^verbatim>\<open>generate_round_keys(master_key, rounds=16)\<close>: \<open>round_key_at\<close> is the body
  of the loop, the value appended for round \<open>i\<close>; for \<open>i < 16\<close> the shift
  \<open>64 - i\<close> is positive, so \<^verbatim>\<open>>>\<close> never raises.
\<close>

definition round_key_at :: "int \<Rightarrow> nat \<Rightarrow> int" where
  "round_key_at master_key i =
     (let shifted_key =
            (push_bit i master_key OR drop_bit (64 - i) master_key) AND 0xFFFFFFFFFFFFFFFF;
          round_key = shifted_key XOR (int i * 0x0123456789ABCDEF)
      in round_key AND 0xFFFFFFFF)"

definition generate_round_keys :: "int \<Rightarrow> int list" where
  "generate_round_keys master_key = map (round_key_at master_key) [0..<16]"

definition feistel_round :: "int \<Rightarrow> int \<Rightarrow> int \<Rightarrow> int \<times> int" where
  "feistel_round left right round_key =
     (let f_result = feistel_function right round_key;
          new_left = right;
          new_right = left XOR f_result
      in (new_left, new_right))"

text \<open>
  \<^verbatim>\<open>encrypt_block\<close> and \<^verbatim>\<open>decrypt_block\<close>: \<^verbatim>\<open>round_keys[i]\<close> is read
  for \<open>i < 16\<close> from a list of 16 keys, so it never raises.
\<close>

definition encrypt_block :: "int \<Rightarrow> int \<Rightarrow> int" where
  "encrypt_block block master_key =
     (let round_keys = generate_round_keys master_key;
          (left, right) =
            fold (\<lambda>i (left, right). feistel_round left right (round_keys ! i))
              [0..<16] (split_block block)
      in combine_halves right left)"

definition decrypt_block :: "int \<Rightarrow> int \<Rightarrow> int" where
  "decrypt_block block master_key =
     (let round_keys = generate_round_keys master_key;
          (left, right) =
            fold (\<lambda>i (left, right). feistel_round left right (round_keys ! i))
              (rev [0..<16]) (split_block block)
      in combine_halves right left)"

subsection \<open>Text to blocks and back\<close>

text \<open>
  The padding step of \<^verbatim>\<open>text_to_blocks\<close> (the statements between the encoding
  and the loop): bytes are appended only \<^verbatim>\<open>if padding_size < block_size\<close>.
\<close>

definition pad_text :: "bytes \<Rightarrow> bytes" where
  "pad_text bytes_data =
     (let padding_size = 8 - (length bytes_data mod 8)
      in if padding_size < 8
         then bytes_data @ replicate padding_size (of_nat padding_size)
         else bytes_data)"

definition text_to_blocks :: "bytes \<Rightarrow> error + int list" where
  "text_to_blocks text = map_err unpack_be_Q (chunks 8 (pad_text text))"

text \<open>
  \<^verbatim>\<open>blocks_to_text\<close>: \<^verbatim>\<open>struct.pack('>Q', block)\<close> for each block, then
  the statements after the loop, here \<open>unpad_text\<close>: \<^verbatim>\<open>bytes_data[-1]\<close>
  (IndexError when there is no block), the trailing bytes removed
  \<^verbatim>\<open>if padding_size < block_size\<close>, then the decoding.
\<close>

definition unpad_text :: "bytes \<Rightarrow> error + bytes" where
  "unpad_text bytes_data =
     (if bytes_data = [] then Inl IndexError
      else let padding_size = unat (last bytes_data);
               bytes_data = (if padding_size < 8
                             then slice_to_neg padding_size bytes_data
                             else bytes_data)
           in decode_utf8 bytes_data)"

definition blocks_to_text :: "int list \<Rightarrow> error + bytes" where
  "blocks_to_text blocks =
     (case map_err pack_be_Q blocks of
        Inl e \<Rightarrow> Inl e
      | Inr packed \<Rightarrow> unpad_text (concat packed))"

definition encrypt_text :: "bytes \<Rightarrow> int \<Rightarrow> error + int list" where
  "encrypt_text text key =
     (case text_to_blocks text of
        Inl e \<Rightarrow> Inl e
      | Inr blocks \<Rightarrow> Inr (map (\<lambda>block. encrypt_block block key) blocks))"

definition decrypt_text :: "int list \<Rightarrow> int \<Rightarrow> error + bytes" where
  "decrypt_text encrypted_blocks key =
     blocks_to_text (map (\<lambda>block. decrypt_block block key) encrypted_blocks)"

section \<open>Auxiliary notions for the statements and proofs\<close>

text \<open>
  One round of the GOST loop as a total function: the state \<^verbatim>\<open>gost_round\<close>
  returns, and the state unchanged where it raises.
\<close>

definition gost_pure_round :: "int list \<Rightarrow> nat \<Rightarrow> int \<times> int \<Rightarrow> int \<times> int" where
  "gost_pure_round key i st = (case gost_round key i st of Inr st' \<Rightarrow> st' | Inl e \<Rightarrow> st)"

text \<open>Both halves of a block are unsigned 32-bit values.\<close>

definition halves32 :: "int \<times> int \<Rightarrow> bool" where
  "halves32 st = (0 \<le> fst st \<and> fst st < 2 ^ 32 \<and> 0 \<le> snd st \<and> snd st < 2 ^ 32)"

text \<open>
  Following the spec's words for the key material ("interpret as 8
  little-endian unsigned 32-bit words, order preserved"): word \<open>i\<close> is made of
  bytes \<open>4 i, ..., 4 i + 3\<close>, the first of them the least significant.
\<close>

definition le_word_at :: "bytes \<Rightarrow> nat \<Rightarrow> int" where
  "le_word_at data i =
     uint (data ! (4 * i)) + 256 * uint (data ! (4 * i + 1))
       + 65536 * uint (data ! (4 * i + 2)) + 16777216 * uint (data ! (4 * i + 3))"

text \<open>One round of the Feistel loop of lab2, as a function of the round index.\<close>

definition toy_round :: "int list \<Rightarrow> nat \<Rightarrow> int \<times> int \<Rightarrow> int \<times> int" where
  "toy_round round_keys = (\<lambda>i (left, right). feistel_round left right (round_keys ! i))"


text \<open>
  \<^verbatim>\<open>decrypt_text(encrypt_text(text, key), key)\<close>: an exception raised by
  either call is the result.
\<close>

definition roundtrip_text :: "bytes \<Rightarrow> int \<Rightarrow> error + bytes" where
  "roundtrip_text text key =
     (case encrypt_text text key of Inl e \<Rightarrow> Inl e | Inr blocks \<Rightarrow> decrypt_text blocks key)"

text \<open>
  Following the spec's words for the round keys of lab2 ("rotate the master
  key left by i bits (64-bit circular rotation), XOR with
  i * 0x0123456789ABCDEF (64-bit arithmetic, truncated to 64 bits), keep only
  the low 32 bits"), on 64-bit machine words.
\<close>

definition spec_round_key :: "int \<Rightarrow> nat \<Rightarrow> int" where
  "spec_round_key k i =
     take_bit 32 (uint (word_rotl i (word_of_int k :: 64 word)
                        XOR (word_of_nat i * 0x0123456789ABCDEF)))"

section \<open>Properties\<close>

subsection \<open>Integers, bytes and loops\<close>

lemma mask32: "(x::int) AND 0xFFFFFFFF = take_bit 32 x"
  by (simp add: take_bit_eq_mask mask_eq_exp_minus_1)

lemma xor_in_range:
  assumes "0 \<le> (a::int)" "a < 2 ^ n" "0 \<le> b" "b < 2 ^ n"
  shows "0 \<le> a XOR b \<and> a XOR b < 2 ^ n"
proof -
  have "take_bit n a = a" "take_bit n b = b"
    using assms by (simp_all add: take_bit_int_eq_self_iff)
  then have "take_bit n (a XOR b) = a XOR b"
    by (simp add: take_bit_xor)
  then show ?thesis
    by (simp only: take_bit_int_eq_self_iff)
qed

lemma length_int_to_le: "length (int_to_le n x) = n"
  by (induction n arbitrary: x) auto

lemma le_to_int_bounds: "0 \<le> le_to_int bs \<and> le_to_int bs < 256 ^ length bs"
proof (induction bs)
  case Nil
  then show ?case by simp
next
  case (Cons b bs)
  have "uint b < 256" using uint_bounded [of b] by simp
  moreover have "0 \<le> uint b" by simp
  ultimately show ?case using Cons by auto
qed

lemma int_to_le_le_to_int: "int_to_le (length bs) (le_to_int bs) = bs"
proof (induction bs)
  case Nil
  then show ?case by simp
next
  case (Cons b bs)
  have b: "0 \<le> uint b" "uint b < 256" using uint_bounded [of b] by simp_all
  have m: "uint b mod 256 = uint b" using b by simp
  have d: "(uint b + 256 * le_to_int bs) div 256 = le_to_int bs" using b by simp
  show ?case using Cons by (simp add: m d)
qed

lemma le_to_int_int_to_le: "le_to_int (int_to_le n x) = x mod 256 ^ n"
proof (induction n arbitrary: x)
  case 0
  then show ?case by simp
next
  case (Suc n)
  have u: "uint (word_of_int (x mod 256) :: byte) = x mod 256"
    by (simp add: uint_word_of_int)
  have "x mod (256 * 256 ^ n) = 256 * ((x div 256) mod 256 ^ n) + x mod 256"
    using zmod_zmult2_eq [of "256 ^ n" x 256] by simp
  then show ?case using Suc by (simp add: u)
qed

lemma feistel_inverse:
  assumes "\<And>i st. g i (prod.swap (g i st)) = prod.swap st"
  shows "fold g (rev is) (prod.swap (fold g is st)) = prod.swap st"
proof (induction "is" arbitrary: st)
  case Nil
  then show ?case by simp
next
  case (Cons i "is")
  then show ?case by (simp add: assms)
qed

lemma for_each_pure:
  assumes "\<And>i st. body i st = Inr (g i st)"
  shows "for_each is body st = Inr (fold g is st)"
  by (induction "is" arbitrary: st) (simp_all add: assms)

lemma fold_invariant:
  assumes "\<And>i st. P st \<Longrightarrow> P (g i st)" and "P st"
  shows "P (fold g is st)"
  using assms(2) by (induction "is" arbitrary: st) (simp_all add: assms(1))

subsection \<open>Padding of the GOST pipeline\<close>

lemma unat_pad_byte: "p \<le> 8 \<Longrightarrow> unat (of_nat p :: byte) = p"
  by (simp add: unat_of_nat)

text \<open>
  Claim C6. Unpadding a padded buffer succeeds and gives the buffer back, for
  every byte buffer, the empty one included.
\<close>

theorem pkcs7_unpad_pad: "pkcs7_unpad (pkcs7_pad x) = Inr x"
proof -
  define p where "p = 8 - (length x mod 8)"
  have p: "0 < p" "p \<le> 8" by (simp_all add: p_def)
  have pad: "pkcs7_pad x = x @ replicate p (of_nat p)"
    by (simp add: pkcs7_pad_def p_def Let_def)
  have ne: "x @ replicate p (of_nat p :: byte) \<noteq> []" using p by auto
  have lst: "unat (last (x @ replicate p (of_nat p :: byte))) = p"
    using p by (simp add: unat_pad_byte)
  have sl: "slice_from_neg p (x @ replicate p (of_nat p :: byte)) = replicate p (of_nat p)"
    using p by (simp add: slice_from_neg_def)
  have st: "slice_to_neg p (x @ replicate p (of_nat p :: byte)) = x"
    using p by (simp add: slice_to_neg_def)
  have ex: "\<not> list_ex (\<lambda>q. unat q \<noteq> p) (replicate p (of_nat p :: byte))"
    using p by (simp add: list_ex_iff unat_pad_byte)
  show ?thesis
    unfolding pad pkcs7_unpad_def Let_def lst sl st
    using ne ex by simp
qed

subsection \<open>The GOST block cipher\<close>

lemma unpack_le_II_Inr:
  assumes "length buf = 8"
  shows "\<exists>a b. unpack_le_II buf = Inr (a, b) \<and> halves32 (a, b)
           \<and> int_to_le 4 a @ int_to_le 4 b = buf"
proof -
  let ?a = "le_to_int (take 4 buf)" and ?b = "le_to_int (drop 4 buf)"
  have la: "length (take 4 buf) = 4" and lb: "length (drop 4 buf) = 4"
    using assms by simp_all
  have "0 \<le> ?a \<and> ?a < 256 ^ 4" "0 \<le> ?b \<and> ?b < 256 ^ 4"
    using le_to_int_bounds [of "take 4 buf"] le_to_int_bounds [of "drop 4 buf"]
    by (simp_all only: la lb)
  then have "halves32 (?a, ?b)"
    by (simp add: halves32_def)
  moreover have "int_to_le 4 ?a = take 4 buf"
    using int_to_le_le_to_int [of "take 4 buf"] by (simp only: la)
  moreover have "int_to_le 4 ?b = drop 4 buf"
    using int_to_le_le_to_int [of "drop 4 buf"] by (simp only: lb)
  ultimately show ?thesis
    using assms by (simp add: unpack_le_II_def)
qed

lemma unpack_pack_le_II:
  assumes "halves32 (a, b)"
  shows "pack_le_II a b = Inr (int_to_le 4 a @ int_to_le 4 b)"
    and "unpack_le_II (int_to_le 4 a @ int_to_le 4 b) = Inr (a, b)"
proof -
  show "pack_le_II a b = Inr (int_to_le 4 a @ int_to_le 4 b)"
    using assms by (simp add: pack_le_II_def halves32_def)
  have "a mod 256 ^ 4 = a" "b mod 256 ^ 4 = b"
    using assms by (simp_all add: halves32_def)
  then show "unpack_le_II (int_to_le 4 a @ int_to_le 4 b) = Inr (a, b)"
    by (simp add: unpack_le_II_def length_int_to_le le_to_int_int_to_le)
qed

lemma mod8_in_key: "length key = 8 \<Longrightarrow> \<not> length key \<le> i mod 8"
  by (simp add: not_le)

lemma gost_round_Inr:
  assumes "length key = 8"
  shows "gost_round key i st = Inr (gost_pure_round key i st)"
  using mod8_in_key [OF assms, of i]
  by (simp add: gost_pure_round_def gost_round_def Let_def split: prod.splits)

lemma gost_pure_round_swap:
  assumes "length key = 8"
  shows "gost_pure_round key i (prod.swap (gost_pure_round key i st)) = prod.swap st"
  using mod8_in_key [OF assms, of i]
  by (cases st) (simp add: gost_pure_round_def gost_round_def Let_def xor.assoc)

lemma gost_pure_round_range:
  assumes "length key = 8" and "halves32 st"
  shows "halves32 (gost_pure_round key i st)"
proof (cases st)
  case (Pair n1 n2)
  define s where "s = take_bit 32 (push_bit 11 (sbox_loop (take_bit 32 (n1 + key ! (i mod 8))))
          OR drop_bit 21 (sbox_loop (take_bit 32 (n1 + key ! (i mod 8)))))"
  have s: "0 \<le> s" "s < 2 ^ 32"
    unfolding s_def by (rule take_bit_nonnegative, rule take_bit_int_less_exp)
  have r: "gost_pure_round key i st = (n2 XOR s, n1)"
    using mod8_in_key [OF assms(1), of i]
    by (simp add: Pair gost_pure_round_def gost_round_def Let_def mask32 s_def)
  have "0 \<le> n2" "n2 < 2 ^ 32" "0 \<le> n1" "n1 < 2 ^ 32"
    using assms(2) by (simp_all add: halves32_def Pair)
  then show ?thesis
    using xor_in_range [of n2 32 s] s by (simp add: r halves32_def)
qed

lemma gost_loop:
  assumes "length key = 8"
  shows "for_each is (gost_round key) st = Inr (fold (gost_pure_round key) is st)"
  by (rule for_each_pure) (rule gost_round_Inr [OF assms])

text \<open>
  Claim C1. For every 8-byte block and every key of eight words, encrypting the
  block succeeds and gives an 8-byte block, and decrypting that block with the
  same key gives the original block back. The block's content is arbitrary
  (all-zero and all-one patterns included), and so are the key words.
\<close>

theorem gost_decrypt_encrypt_block:
  assumes "length block = 8" and "length key = 8"
  shows "\<exists>c. gost_encrypt_block block key = Inr c \<and> length c = 8
           \<and> gost_decrypt_block c key = Inr block"
proof -
  obtain a b where u: "unpack_le_II block = Inr (a, b)" and h: "halves32 (a, b)"
    and blk: "int_to_le 4 a @ int_to_le 4 b = block"
    using unpack_le_II_Inr [OF assms(1)] by blast
  define fin where "fin = fold (gost_pure_round key) [0..<32] (a, b)"
  have hfin: "halves32 fin"
    unfolding fin_def
    by (rule fold_invariant [where P = halves32]) (simp_all add: gost_pure_round_range assms(2) h)
  obtain n1 n2 where fin: "fin = (n1, n2)" by (cases fin)
  have hsw: "halves32 (n2, n1)" using hfin by (simp add: fin halves32_def)
  define c where "c = int_to_le 4 n2 @ int_to_le 4 n1"
  have enc: "gost_encrypt_block block key = Inr c"
    using unpack_pack_le_II(1) [OF hsw] fin
    by (simp add: gost_encrypt_block_def u gost_loop [OF assms(2)] fin_def [symmetric] c_def)
  have bk: "fold (gost_pure_round key) (rev [0..<32]) (n2, n1) = (b, a)"
    using feistel_inverse [of "gost_pure_round key" "[0..<32]" "(a, b)"]
      gost_pure_round_swap [OF assms(2)]
    by (simp add: fin_def [symmetric] fin)
  have hba: "halves32 (a, b)" by (rule h)
  have dec: "gost_decrypt_block c key = Inr block"
    using unpack_pack_le_II(2) [OF hsw] unpack_pack_le_II(1) [OF hba]
    by (simp add: gost_decrypt_block_def c_def gost_loop [OF assms(2)] bk blk)
  have "length c = 8" by (simp add: c_def length_int_to_le)
  with enc dec show ?thesis by blast
qed

theorem gost_decrypt_encrypt_block_witness:
  "\<exists>c. gost_encrypt_block (replicate 8 0xFF) (replicate 8 0) = Inr c \<and> length c = 8
     \<and> gost_decrypt_block c (replicate 8 0) = Inr (replicate 8 0xFF)"
  using gost_decrypt_encrypt_block [of "replicate 8 0xFF" "replicate 8 0"] by simp

subsection \<open>Slices and loops that can raise\<close>

lemma chunks_Nil: "chunks n [] = []"
  by (simp add: chunks.simps)

lemma chunks_Cons:
  "0 < n \<Longrightarrow> data \<noteq> [] \<Longrightarrow> chunks n data = take n data # chunks n (drop n data)"
  by (subst chunks.simps) simp

lemma concat_chunks: "0 < n \<Longrightarrow> concat (chunks n data) = data"
proof (induction n data rule: chunks.induct)
  case (1 n data)
  show ?case
  proof (cases "data = []")
    case True
    then show ?thesis by (simp add: chunks_Nil)
  next
    case False
    then show ?thesis using 1 by (simp add: chunks_Cons)
  qed
qed

lemma chunks_single:
  assumes "data \<noteq> []" and "length data \<le> n"
  shows "chunks n data = [data]"
proof -
  have "0 < n" using assms by (cases data) auto
  then show ?thesis using assms by (simp add: chunks_Cons chunks_Nil)
qed

lemma chunks_append:
  "0 < n \<Longrightarrow> length xs = m * n \<Longrightarrow> chunks n (xs @ ys) = chunks n xs @ chunks n ys"
proof (induction m arbitrary: xs)
  case 0
  then show ?case by (simp add: chunks_Nil)
next
  case (Suc m)
  have len: "n \<le> length xs" using Suc.prems by simp
  have ne: "xs \<noteq> []" using Suc.prems by auto
  have d: "length (drop n xs) = m * n" using Suc.prems by simp
  have "chunks n (xs @ ys) = take n xs # chunks n (drop n xs @ ys)"
    using Suc.prems(1) ne len by (simp add: chunks_Cons)
  also have "\<dots> = take n xs # chunks n (drop n xs) @ chunks n ys"
    using Suc.IH [OF Suc.prems(1) d] by simp
  also have "\<dots> = chunks n xs @ chunks n ys"
    using Suc.prems(1) ne by (simp add: chunks_Cons)
  finally show ?case .
qed

lemma chunks_map:
  "0 < n \<Longrightarrow> length data = m * n \<Longrightarrow>
     chunks n data = map (\<lambda>i. take n (drop (i * n) data)) [0..<m]"
proof (induction m arbitrary: data)
  case 0
  then show ?case by (simp add: chunks_Nil)
next
  case (Suc m)
  have ne: "data \<noteq> []" using Suc.prems by auto
  have d: "length (drop n data) = m * n" using Suc.prems by simp
  have "chunks n data = take n data # chunks n (drop n data)"
    using Suc.prems(1) ne by (rule chunks_Cons)
  also have "chunks n (drop n data) = map (\<lambda>i. take n (drop (i * n) (drop n data))) [0..<m]"
    by (rule Suc.IH [OF Suc.prems(1) d])
  also have "\<dots> = map (\<lambda>i. take n (drop (Suc i * n) data)) [0..<m]"
    by (simp add: add.commute)
  finally show ?case
    by (simp only: map_upt_Suc) simp
qed

lemma chunks_full:
  assumes "0 < n" and "length data = m * n" and "c \<in> set (chunks n data)"
  shows "length c = n"
proof -
  obtain i where "i < m" and c: "c = take n (drop (i * n) data)"
    using assms(3) unfolding chunks_map [OF assms(1,2)] by auto
  then have "i * n + n \<le> m * n"
    by (metis Suc_leI mult_Suc mult_le_mono1 add.commute)
  then show ?thesis using assms(2) c by simp
qed

lemma length_chunks: "0 < n \<Longrightarrow> length data = m * n \<Longrightarrow> length (chunks n data) = m"
  by (simp add: chunks_map)

lemma chunks_ragged:
  assumes "0 < n" and "length data mod n \<noteq> 0"
  shows "chunks n data =
           chunks n (take (length data div n * n) data) @ [drop (length data div n * n) data]"
proof -
  let ?m = "length data div n * n"
  have m: "?m \<le> length data" by simp
  have lt: "length (take ?m data) = length data div n * n" using m by simp
  have rest: "length (drop ?m data) = length data mod n"
    by (simp add: minus_div_mult_eq_mod)
  have "length data mod n < n" using assms(1) by simp
  then have "chunks n (drop ?m data) = [drop ?m data]"
    using assms(2) rest by (intro chunks_single) auto
  moreover have "chunks n (take ?m data @ drop ?m data)
      = chunks n (take ?m data) @ chunks n (drop ?m data)"
    by (rule chunks_append [OF assms(1) lt])
  ultimately show ?thesis by simp
qed

lemma map_err_Inr:
  assumes "\<And>x. x \<in> set xs \<Longrightarrow> f x = Inr (g x)"
  shows "map_err f xs = Inr (map g xs)"
  using assms by (induction xs) simp_all

lemma map_err_succeeds:
  assumes "\<And>x. x \<in> set xs \<Longrightarrow> \<exists>y. f x = Inr y \<and> P y"
  shows "\<exists>ys. map_err f xs = Inr ys \<and> list_all P ys \<and> length ys = length xs"
  using assms
proof (induction xs)
  case Nil
  then show ?case by simp
next
  case (Cons x xs)
  obtain y where y: "f x = Inr y" "P y" using Cons.prems by auto
  obtain ys where ys: "map_err f xs = Inr ys" "list_all P ys" "length ys = length xs"
    using Cons by auto
  show ?case using y ys by simp
qed

lemma map_err_fails_last:
  assumes "\<And>x. x \<in> set xs \<Longrightarrow> \<exists>y. f x = Inr y" and "f z = Inl e"
  shows "map_err f (xs @ [z]) = Inl e"
  using assms(1)
proof (induction xs)
  case Nil
  then show ?case by (simp add: assms(2))
next
  case (Cons x xs)
  obtain y where y: "f x = Inr y" using Cons.prems by auto
  have "map_err f (xs @ [z]) = Inl e" using Cons by simp
  then show ?case using y by simp
qed

lemma take4_drop:
  assumes "k + 4 \<le> length xs"
  shows "take 4 (drop k xs) = [xs ! k, xs ! (k + 1), xs ! (k + 2), xs ! (k + 3)]"
proof -
  have "drop k xs = xs ! k # drop (k + 1) xs"
    using assms Cons_nth_drop_Suc [of k xs] by simp
  also have "drop (k + 1) xs = xs ! (k + 1) # drop (k + 2) xs"
    using assms Cons_nth_drop_Suc [of "k + 1" xs] by simp
  also have "drop (k + 2) xs = xs ! (k + 2) # drop (k + 3) xs"
    using assms Cons_nth_drop_Suc [of "k + 2" xs] by (simp add: numeral_3_eq_3)
  also have "drop (k + 3) xs = xs ! (k + 3) # drop (k + 4) xs"
    using assms Cons_nth_drop_Suc [of "k + 3" xs] by (simp add: eval_nat_numeral)
  finally show ?thesis by simp
qed

subsection \<open>Key loading\<close>

lemma unpack_le_8I_words:
  assumes "length buf = 32"
  shows "unpack_le_8I buf = Inr (map (le_word_at buf) [0..<8])"
proof -
  have c: "chunks 4 buf = map (\<lambda>i. take 4 (drop (i * 4) buf)) [0..<8]"
    using assms by (intro chunks_map) simp_all
  have "le_to_int (take 4 (drop (i * 4) buf)) = le_word_at buf i" if "i < 8" for i
  proof -
    have "i * 4 + 4 \<le> length buf" using that assms by simp
    then show ?thesis
      by (simp add: take4_drop le_word_at_def mult.commute)
  qed
  then have "map le_to_int (chunks 4 buf) = map (le_word_at buf) [0..<8]"
    unfolding c by (simp del: upt_Suc)
  then show ?thesis using assms by (simp add: unpack_le_8I_def)
qed

lemma le_word_at_range: "0 \<le> le_word_at data i \<and> le_word_at data i < 2 ^ 32"
proof -
  have b: "0 \<le> uint w \<and> uint w \<le> 255" for w :: byte
    using uint_bounded [of w] by simp
  show ?thesis
    using b [of "data ! (4 * i)"] b [of "data ! (4 * i + 1)"]
      b [of "data ! (4 * i + 2)"] b [of "data ! (4 * i + 3)"]
    by (simp add: le_word_at_def)
qed

text \<open>
  Claim C7. \<^verbatim>\<open>load_key\<close> raises exactly when the key material is not 32
  bytes long; on 32 bytes it returns the eight little-endian words of the
  material, in order, each an unsigned 32-bit value.
\<close>

theorem load_key_spec:
  "((\<exists>e. load_key key_data = Inl e) \<longleftrightarrow> length key_data \<noteq> 32)
   \<and> (length key_data = 32 \<longrightarrow>
        load_key key_data = Inr (map (le_word_at key_data) [0..<8])
        \<and> list_all (\<lambda>w. 0 \<le> w \<and> w < 2 ^ 32) (map (le_word_at key_data) [0..<8]))"
proof -
  have "list_all (\<lambda>w. 0 \<le> w \<and> w < 2 ^ 32) (map (le_word_at key_data) [0..<8])"
    unfolding list_all_iff
  proof
    fix w assume "w \<in> set (map (le_word_at key_data) [0..<8])"
    then obtain i where "w = le_word_at key_data i" by (auto simp del: upt_Suc)
    then show "0 \<le> w \<and> w < 2 ^ 32" by (simp only: le_word_at_range)
  qed
  moreover have "load_key key_data = Inr (map (le_word_at key_data) [0..<8])"
    if "length key_data = 32"
    using that by (simp add: load_key_def unpack_le_8I_words del: upt_Suc)
  moreover have "(\<exists>e. load_key key_data = Inl e) \<longleftrightarrow> length key_data \<noteq> 32"
    by (auto simp: load_key_def unpack_le_8I_words simp del: upt_Suc)
  ultimately show ?thesis by blast
qed

theorem load_key_spec_witness:
  "load_key (replicate 32 1) =
     Inr [0x01010101, 0x01010101, 0x01010101, 0x01010101,
          0x01010101, 0x01010101, 0x01010101, 0x01010101]"
  using load_key_spec [of "replicate 32 1"]
  by (simp add: le_word_at_def upt_conv_Cons)

subsection \<open>Buffer decryption of the GOST pipeline\<close>

lemma gost_block_total:
  assumes "length block = 8" and "length key = 8"
  shows "\<exists>p. (case unpack_le_II block of
           Inl e \<Rightarrow> Inl e
         | Inr st \<Rightarrow>
             (case for_each is (gost_round key) st of
                Inl e \<Rightarrow> Inl e
              | Inr (n1, n2) \<Rightarrow> pack_le_II n2 n1)) = Inr p \<and> length p = 8"
proof -
  obtain a b where u: "unpack_le_II block = Inr (a, b)" and h: "halves32 (a, b)"
    using unpack_le_II_Inr [OF assms(1)] by blast
  define fin where "fin = fold (gost_pure_round key) is (a, b)"
  have hfin: "halves32 fin"
    unfolding fin_def
    by (rule fold_invariant [where P = halves32]) (simp_all add: gost_pure_round_range assms(2) h)
  obtain n1 n2 where fin: "fin = (n1, n2)" by (cases fin)
  have hsw: "halves32 (n2, n1)" using hfin by (simp add: fin halves32_def)
  show ?thesis
    using unpack_pack_le_II(1) [OF hsw] fin
    by (simp add: u gost_loop [OF assms(2)] fin_def [symmetric] length_int_to_le)
qed

lemma gost_decrypt_block_total:
  assumes "length block = 8" and "length key = 8"
  shows "\<exists>p. gost_decrypt_block block key = Inr p \<and> length p = 8"
  unfolding gost_decrypt_block_def by (rule gost_block_total [OF assms])

lemma gost_decrypt_block_short:
  "length block \<noteq> 8 \<Longrightarrow> gost_decrypt_block block key = Inl StructError"
  by (simp add: gost_decrypt_block_def unpack_le_II_def)

lemma load_key_length:
  assumes "length key_data = 32"
  shows "\<exists>key. load_key key_data = Inr key \<and> length key = 8"
  using assms by (simp add: load_key_def unpack_le_8I_words del: upt_Suc)

lemma decrypt_blocks_ragged:
  assumes "length key = 8" and "length d mod 8 \<noteq> 0"
  shows "map_err (\<lambda>b. gost_decrypt_block b key) (chunks 8 d) = Inl StructError"
    and "gost_decrypt_block (drop (length d div 8 * 8) d) key = Inl StructError"
proof -
  let ?m = "length d div 8 * 8"
  have split: "chunks 8 d = chunks 8 (take ?m d) @ [drop ?m d]"
    using assms(2) by (intro chunks_ragged) simp_all
  have lt: "length (take ?m d) = length d div 8 * 8" by simp
  have full: "\<exists>y. gost_decrypt_block x key = Inr y" if "x \<in> set (chunks 8 (take ?m d))" for x
  proof -
    have "length x = 8" using chunks_full [OF _ lt that] by simp
    then show ?thesis using gost_decrypt_block_total [OF _ assms(1)] by blast
  qed
  have "length (drop ?m d) = length d mod 8" by (simp add: minus_div_mult_eq_mod)
  then have "length (drop ?m d) \<noteq> 8"
    by (metis mod_less_divisor zero_less_numeral less_irrefl)
  then show short: "gost_decrypt_block (drop ?m d) key = Inl StructError"
    by (rule gost_decrypt_block_short)
  show "map_err (\<lambda>b. gost_decrypt_block b key) (chunks 8 d) = Inl StructError"
    unfolding split using full short by (rule map_err_fails_last)
qed

lemma decrypt_blocks_aligned:
  assumes "length key = 8" and "length d mod 8 = 0"
  shows "\<exists>blocks. map_err (\<lambda>b. gost_decrypt_block b key) (chunks 8 d) = Inr blocks
           \<and> length (concat blocks) = length d"
proof -
  have lc: "length d = length d div 8 * 8" using assms(2) by auto
  have "\<exists>y. gost_decrypt_block x key = Inr y \<and> length y = 8" if "x \<in> set (chunks 8 d)" for x
  proof -
    have "length x = 8" using chunks_full [OF _ lc that] by simp
    then show ?thesis using gost_decrypt_block_total [OF _ assms(1)] by blast
  qed
  then obtain blocks where blocks:
      "map_err (\<lambda>b. gost_decrypt_block b key) (chunks 8 d) = Inr blocks"
      "list_all (\<lambda>y. length y = 8) blocks" "length blocks = length (chunks 8 d)"
    using map_err_succeeds [of "chunks 8 d" "\<lambda>b. gost_decrypt_block b key" "\<lambda>y. length y = 8"]
    by blast
  have "length (concat blocks) = 8 * length blocks"
    using blocks(2) by (induction blocks) simp_all
  also have "\<dots> = length d"
    using length_chunks [OF _ lc] lc by (simp add: blocks(3))
  finally show ?thesis using blocks(1) by blast
qed

lemma read_encrypted_data_raw:
  "\<not> utf8_valid (take 10 file) \<Longrightarrow> read_encrypted_data read_text b64decode file = Inr file"
  by (simp add: read_encrypted_data_def)

lemma read_encrypted_data_text:
  "utf8_valid (take 10 file) \<Longrightarrow>
     read_encrypted_data read_text b64decode file =
       (case read_text file of Inl e \<Rightarrow> Inl e | Inr text \<Rightarrow> b64decode text)"
  by (simp add: read_encrypted_data_def)

text \<open>
  Claim C9, as the code has it. \<^verbatim>\<open>decrypt_file\<close> checks no length and has no
  error of its own for a wrong length. When the ciphertext bytes it decrypts
  have a length that is not a multiple of 8 (and the key file is valid), it
  fails with \<^verbatim>\<open>struct.error\<close>, and nothing is written. The ciphertext bytes
  are the bytes of the input file whenever the first 10 of them are not valid
  UTF-8. The error is the one that the per-block step \<^verbatim>\<open>gost_decrypt_block\<close>
  raises on the short last slice. On an 8-byte block with an 8-word key the
  per-block step never fails; hence, when the length of the ciphertext bytes is
  a multiple of 8, every block is decrypted and only the unpadding that
  follows can fail.
\<close>

theorem decrypt_file_length:
  "(length key_data = 32 \<and> read_encrypted_data read_text b64decode file = Inr d
      \<and> length d mod 8 \<noteq> 0 \<longrightarrow>
      decrypt_file read_text b64decode key_data file = Inl StructError)
   \<and> (\<not> utf8_valid (take 10 file) \<longrightarrow>
        read_encrypted_data read_text b64decode file = Inr file)
   \<and> (length key = 8 \<and> length d mod 8 \<noteq> 0 \<longrightarrow>
        gost_decrypt_block (drop (length d div 8 * 8) d) key = Inl StructError)
   \<and> (length block = 8 \<and> length key = 8 \<longrightarrow>
        (\<exists>p. gost_decrypt_block block key = Inr p \<and> length p = 8))
   \<and> (length key_data = 32 \<and> read_encrypted_data read_text b64decode file = Inr d
        \<and> length d mod 8 = 0 \<longrightarrow>
        (\<exists>key blocks. load_key key_data = Inr key
           \<and> map_err (\<lambda>b. gost_decrypt_block b key) (chunks 8 d) = Inr blocks
           \<and> length (concat blocks) = length d
           \<and> decrypt_file read_text b64decode key_data file = pkcs7_unpad (concat blocks)))"
proof (intro conjI impI)
  assume a: "length key_data = 32 \<and> read_encrypted_data read_text b64decode file = Inr d
      \<and> length d mod 8 \<noteq> 0"
  obtain key where key: "load_key key_data = Inr key" "length key = 8"
    using load_key_length a by blast
  have "length d mod 8 \<noteq> 0" using a by simp
  then have "map_err (\<lambda>b. gost_decrypt_block b key) (chunks 8 d) = Inl StructError"
    by (rule decrypt_blocks_ragged(1) [OF key(2)])
  then show "decrypt_file read_text b64decode key_data file = Inl StructError"
    using a by (simp add: decrypt_file_def key(1))
next
  assume "\<not> utf8_valid (take 10 file)"
  then show "read_encrypted_data read_text b64decode file = Inr file"
    by (rule read_encrypted_data_raw)
next
  assume "length key = 8 \<and> length d mod 8 \<noteq> 0"
  then show "gost_decrypt_block (drop (length d div 8 * 8) d) key = Inl StructError"
    using decrypt_blocks_ragged(2) by blast
next
  assume "length block = 8 \<and> length key = 8"
  then show "\<exists>p. gost_decrypt_block block key = Inr p \<and> length p = 8"
    using gost_decrypt_block_total by blast
next
  assume a: "length key_data = 32 \<and> read_encrypted_data read_text b64decode file = Inr d
      \<and> length d mod 8 = 0"
  obtain key where key: "load_key key_data = Inr key" "length key = 8"
    using load_key_length a by blast
  have al: "length d mod 8 = 0" using a by simp
  from decrypt_blocks_aligned [OF key(2) al] obtain blocks where blocks:
      "map_err (\<lambda>b. gost_decrypt_block b key) (chunks 8 d) = Inr blocks"
      "length (concat blocks) = length d"
    by auto
  have "decrypt_file read_text b64decode key_data file = pkcs7_unpad (concat blocks)"
    using a by (simp add: decrypt_file_def key(1) blocks(1))
  then show "\<exists>key blocks. load_key key_data = Inr key
           \<and> map_err (\<lambda>b. gost_decrypt_block b key) (chunks 8 d) = Inr blocks
           \<and> length (concat blocks) = length d
           \<and> decrypt_file read_text b64decode key_data file = pkcs7_unpad (concat blocks)"
    using key(1) blocks by blast
qed

theorem decrypt_file_length_witness:
  "decrypt_file Inr (\<lambda>text. Inl ValueError) (replicate 32 0) [0xFF, 0, 0]
     = Inl StructError
   \<and> read_encrypted_data Inr (\<lambda>text. Inl ValueError) [0xFF, 0, 0] = Inr [0xFF, 0, 0]
   \<and> gost_decrypt_block [0xFF, 0, 0] (replicate 8 0) = Inl StructError
   \<and> (\<exists>p. gost_decrypt_block (replicate 8 0) (replicate 8 0) = Inr p \<and> length p = 8)
   \<and> (\<exists>key blocks. load_key (replicate 32 0) = Inr key
           \<and> map_err (\<lambda>b. gost_decrypt_block b key) (chunks 8 (0xFF # replicate 15 0)) = Inr blocks
           \<and> length (concat blocks) = 16
           \<and> decrypt_file Inr (\<lambda>text. Inl ValueError) (replicate 32 0)
                (0xFF # replicate 15 0) = pkcs7_unpad (concat blocks))"
proof -
  have raw3: "read_encrypted_data Inr (\<lambda>text. Inl ValueError) [0xFF, 0, 0]
      = Inr [0xFF, 0, 0]"
    by (simp add: read_encrypted_data_def)
  have raw16: "read_encrypted_data Inr (\<lambda>text. Inl ValueError)
      (0xFF # replicate 15 0) = Inr (0xFF # replicate 15 0)"
    by (simp add: read_encrypted_data_def)
  show ?thesis
    using decrypt_file_length [of "replicate 32 0" "\<lambda>data. Inr data" "\<lambda>text. Inl ValueError"
        "[0xFF, 0, 0]" "[0xFF, 0, 0]" "replicate 8 0" "replicate 8 0"]
      decrypt_file_length [of "replicate 32 0" "\<lambda>data. Inr data" "\<lambda>text. Inl ValueError"
        "0xFF # replicate 15 0" "0xFF # replicate 15 0" "replicate 8 0" "replicate 8 0"]
      raw3 raw16
    by simp
qed

text \<open>
  The claim as stated asks for a wrong-length error of the buffer decryption
  itself, and for no other failure, on every ciphertext whose length is not a
  multiple of 8. A file of three NUL bytes is taken for base64 text (its first
  bytes are valid UTF-8); read as text it is three NUL characters (the first
  parameter returns the bytes as they are), which \<^verbatim>\<open>base64.b64decode\<close>
  discards, being outside its alphabet (the second parameter returns the empty
  buffer), so the ciphertext is empty and the failure is the IndexError of
  \<^verbatim>\<open>pkcs7_unpad\<close> on the empty buffer. A file of the three bytes
  \<^verbatim>\<open>FF 00 00\<close> is read as it is, whatever the library does, and the failure
  is the \<^verbatim>\<open>struct.error\<close> of the per-block step, reached without any check
  of the length before it.
\<close>

theorem decrypt_file_other_errors:
  "decrypt_file Inr (\<lambda>text. Inr []) (replicate 32 0) [0, 0, 0] = Inl IndexError
   \<and> decrypt_file Inr (\<lambda>text. Inr []) (replicate 32 0) [0xFF, 0, 0]
       = Inl StructError
   \<and> gost_decrypt_block [0xFF, 0, 0] (replicate 8 0) = Inl StructError"
proof -
  have k: "load_key (replicate 32 0) = Inr (map (le_word_at (replicate 32 0)) [0..<8])"
    by (simp add: load_key_def unpack_le_8I_words del: upt_Suc)
  have s: "gost_decrypt_block [0xFF, 0, 0] key = Inl StructError" for key
    by (simp add: gost_decrypt_block_short)
  have 1: "decrypt_file Inr (\<lambda>text. Inr []) (replicate 32 0) [0, 0, 0]
      = Inl IndexError"
    by (simp add: decrypt_file_def k read_encrypted_data_def chunks_Nil pkcs7_unpad_def
        del: upt_Suc)
  have 2: "decrypt_file Inr (\<lambda>text. Inr []) (replicate 32 0) [0xFF, 0, 0]
      = Inl StructError"
    by (simp add: decrypt_file_def k read_encrypted_data_def chunks_Cons chunks_Nil s
        del: upt_Suc)
  show ?thesis using 1 2 s by simp
qed

text \<open>
  The text branch: an exception of the text-mode read is the result, and
  otherwise the ciphertext bytes are whatever \<^verbatim>\<open>base64.b64decode\<close> returns.
\<close>

lemma decrypt_file_text_read_fails:
  assumes "length key_data = 32" and "utf8_valid (take 10 file)" and "read_text file = Inl e"
  shows "decrypt_file read_text b64decode key_data file = Inl e"
proof -
  obtain key where "load_key key_data = Inr key" using load_key_length assms(1) by blast
  then show ?thesis
    using assms(2,3) by (simp add: decrypt_file_def read_encrypted_data_def)
qed

lemma decrypt_file_base64_decoded:
  assumes "utf8_valid (take 10 file)" and "read_text file = Inr text"
  shows "read_encrypted_data read_text b64decode file = b64decode text"
  using assms by (simp add: read_encrypted_data_def)

subsection \<open>What the unpadding checks\<close>

text \<open>
  Claim C5, as the code has it. For a non-empty buffer whose last byte \<open>p\<close>
  is not 0, \<^verbatim>\<open>pkcs7_unpad\<close> raises ValueError when \<open>p\<close> exceeds the
  length of the buffer or one of the last \<open>p\<close> bytes differs from \<open>p\<close>, and
  otherwise returns the buffer without its last \<open>p\<close> bytes. There is no upper
  bound of 8 on \<open>p\<close>.
\<close>

theorem pkcs7_unpad_spec:
  assumes "data \<noteq> []" and "last data \<noteq> 0"
  shows "pkcs7_unpad data =
     (if unat (last data) > length data
         \<or> (\<exists>b \<in> set (drop (length data - unat (last data)) data). b \<noteq> last data)
      then Inl ValueError
      else Inr (take (length data - unat (last data)) data))"
proof -
  have p: "unat (last data) \<noteq> 0" using assms(2) by (simp add: unat_eq_zero)
  have neq: "unat b \<noteq> unat (last data) \<longleftrightarrow> b \<noteq> last data" for b
    by (simp add: word_unat_eq_iff)
  show ?thesis
    using assms(1) p
    by (simp add: pkcs7_unpad_def Let_def slice_from_neg_def slice_to_neg_def list_ex_iff neq)
qed

theorem pkcs7_unpad_spec_witness:
  "pkcs7_unpad [1, 2, 3, 2, 2] = Inr [1, 2, 3]"
  using pkcs7_unpad_spec [of "[1, 2, 3, 2, 2]"] by simp

text \<open>
  The claim as stated asks for an error whenever \<open>p > 8\<close>: nine bytes of value 9
  are unpadded to the empty buffer without any error.
\<close>

theorem pkcs7_unpad_no_upper_bound:
  "8 < unat (last [9, 9, 9, 9, 9, 9, 9, 9, 9 :: byte])
   \<and> pkcs7_unpad [9, 9, 9, 9, 9, 9, 9, 9, 9] = Inr []"
  by (simp add: pkcs7_unpad_def Let_def slice_from_neg_def slice_to_neg_def)

text \<open>
  For \<open>p = 0\<close> the slices \<^verbatim>\<open>data[-0:]\<close> and \<^verbatim>\<open>data[:-0]\<close> are the whole
  buffer and the empty buffer: a buffer of zero bytes passes the check and is
  unpadded to the empty buffer.
\<close>

lemma pkcs7_unpad_zero_bytes:
  "pkcs7_unpad [0, 0, 0, 0, 0, 0, 0, 0] = Inr []"
  by (simp add: pkcs7_unpad_def Let_def slice_from_neg_def slice_to_neg_def)

subsection \<open>Padding of block-aligned input\<close>

lemma map_err_map: "map_err f (map g xs) = map_err (\<lambda>x. f (g x)) xs"
  by (induction xs) (simp_all split: sum.splits)

lemma unpack_be_Q_chunks:
  assumes "length data = m * 8"
  shows "\<exists>blocks. map_err unpack_be_Q (chunks 8 data) = Inr blocks
           \<and> list_all (\<lambda>b. 0 \<le> b \<and> b < 2 ^ 64) blocks \<and> length blocks = m
           \<and> map_err pack_be_Q blocks = Inr (chunks 8 data)"
proof -
  have one: "unpack_be_Q c = Inr (le_to_int (rev c)) \<and> 0 \<le> le_to_int (rev c)
      \<and> le_to_int (rev c) < 2 ^ 64 \<and> pack_be_Q (le_to_int (rev c)) = Inr c"
    if "c \<in> set (chunks 8 data)" for c
  proof -
    have len: "length c = 8" using chunks_full [OF _ assms that] by simp
    have b: "0 \<le> le_to_int (rev c) \<and> le_to_int (rev c) < 256 ^ 8"
      using le_to_int_bounds [of "rev c"] by (simp only: length_rev len)
    have "int_to_le 8 (le_to_int (rev c)) = rev c"
      using int_to_le_le_to_int [of "rev c"] by (simp only: length_rev len)
    then show ?thesis using b len by (simp add: unpack_be_Q_def pack_be_Q_def)
  qed
  let ?blocks = "map (\<lambda>c. le_to_int (rev c)) (chunks 8 data)"
  have 1: "map_err unpack_be_Q (chunks 8 data) = Inr ?blocks"
    by (rule map_err_Inr) (simp add: one)
  have 2: "list_all (\<lambda>b. 0 \<le> b \<and> b < 2 ^ 64) ?blocks"
    using one by (simp add: list_all_iff)
  have 3: "length ?blocks = m" using length_chunks [OF _ assms] by simp
  have "map_err (\<lambda>c. pack_be_Q (le_to_int (rev c))) (chunks 8 data)
      = Inr (map (\<lambda>c. c) (chunks 8 data))"
    by (rule map_err_Inr) (simp add: one)
  then have 4: "map_err pack_be_Q ?blocks = Inr (chunks 8 data)"
    by (simp add: map_err_map)
  show ?thesis using 1 2 3 4 by blast
qed

text \<open>
  Claim C4, as the code has it. On a buffer whose length is a multiple of 8
  (the empty buffer included), \<^verbatim>\<open>pkcs7_pad\<close> of the GOST pipeline appends
  exactly 8 bytes of value 8, so the result is 8 bytes longer; the padding
  step of \<^verbatim>\<open>text_to_blocks\<close> of the Feistel pipeline appends nothing, and
  the text becomes exactly \<open>length x div 8\<close> blocks.
\<close>

theorem pad_on_aligned_input:
  assumes "length x mod 8 = 0"
  shows "pkcs7_pad x = x @ replicate 8 8 \<and> length (pkcs7_pad x) = length x + 8
         \<and> pad_text x = x
         \<and> (\<exists>blocks. text_to_blocks x = Inr blocks \<and> length blocks = length x div 8)"
proof -
  have "pkcs7_pad x = x @ replicate 8 8"
    using assms by (simp add: pkcs7_pad_def)
  moreover have pt: "pad_text x = x"
    using assms by (simp add: pad_text_def)
  moreover have "\<exists>blocks. text_to_blocks x = Inr blocks \<and> length blocks = length x div 8"
  proof -
    have "length x = length x div 8 * 8" using assms by auto
    from unpack_be_Q_chunks [OF this] show ?thesis
      by (auto simp: text_to_blocks_def pt)
  qed
  ultimately show ?thesis by simp
qed

theorem pad_on_aligned_input_witness:
  "pkcs7_pad [1, 2, 3, 4, 5, 6, 7, 8] = [1, 2, 3, 4, 5, 6, 7, 8] @ replicate 8 8
   \<and> length (pkcs7_pad [1, 2, 3, 4, 5, 6, 7, 8]) = 16
   \<and> pad_text [1, 2, 3, 4, 5, 6, 7, 8] = [1, 2, 3, 4, 5, 6, 7, 8]
   \<and> (\<exists>blocks. text_to_blocks [1, 2, 3, 4, 5, 6, 7, 8] = Inr blocks \<and> length blocks = 1)"
  using pad_on_aligned_input [of "[1, 2, 3, 4, 5, 6, 7, 8]"] by simp

text \<open>
  The claim as stated covers the padding in \<^verbatim>\<open>text_to_blocks\<close> too: the
  8-byte text \<^verbatim>\<open>ABCDEFGH\<close> is left as it is and becomes one block, not two.
\<close>

theorem text_to_blocks_no_pad_block:
  "pad_text [0x41, 0x42, 0x43, 0x44, 0x45, 0x46, 0x47, 0x48]
     = [0x41, 0x42, 0x43, 0x44, 0x45, 0x46, 0x47, 0x48]
   \<and> text_to_blocks [0x41, 0x42, 0x43, 0x44, 0x45, 0x46, 0x47, 0x48]
     = Inr [0x4142434445464748]"
  by (simp add: text_to_blocks_def pad_text_def chunks_Cons chunks_Nil unpack_be_Q_def)

subsection \<open>The Feistel block cipher of lab2\<close>

lemma mask64: "(x::int) AND 0xFFFFFFFFFFFFFFFF = take_bit 64 x"
  by (simp add: take_bit_eq_mask mask_eq_exp_minus_1)

lemma feistel_function_range:
  "0 \<le> feistel_function h k \<and> feistel_function h k < 2 ^ 32"
proof -
  have "feistel_function h k = take_bit 32 (push_bit 3 (take_bit 32 (drop_bit 8 (h XOR k) OR push_bit 24 (h XOR k)))
      OR drop_bit 29 (take_bit 32 (drop_bit 8 (h XOR k) OR push_bit 24 (h XOR k))))
      XOR take_bit 32 (push_bit 5 k)" (is "_ = take_bit 32 ?a XOR take_bit 32 ?b")
    by (simp add: feistel_function_def Let_def mask32)
  also have "\<dots> = take_bit 32 (?a XOR ?b)" by (simp add: take_bit_xor)
  finally show ?thesis
    by (simp only: take_bit_nonnegative take_bit_int_less_exp simp_thms)
qed

lemma toy_round_swap:
  "toy_round rks i (prod.swap (toy_round rks i st)) = prod.swap st"
  by (cases st) (simp add: toy_round_def feistel_round_def Let_def xor.assoc)

lemma toy_round_range:
  assumes "halves32 st"
  shows "halves32 (toy_round rks i st)"
proof (cases st)
  case (Pair l r)
  have "0 \<le> l" "l < 2 ^ 32" "0 \<le> r" "r < 2 ^ 32"
    using assms by (simp_all add: halves32_def Pair)
  then show ?thesis
    using xor_in_range [of l 32 "feistel_function r (rks ! i)"] feistel_function_range [of r "rks ! i"]
    by (simp add: Pair toy_round_def feistel_round_def Let_def halves32_def)
qed

lemma split_block_range: "halves32 (split_block block)"
proof -
  have "0 \<le> take_bit 32 (drop_bit 32 block)" "take_bit 32 (drop_bit 32 block) < 2 ^ 32"
    "0 \<le> take_bit 32 block" "take_bit 32 block < 2 ^ 32"
    by (simp_all only: take_bit_nonnegative take_bit_int_less_exp)
  then show ?thesis
    by (simp add: split_block_def Let_def mask32 halves32_def)
qed

lemma combine_split:
  assumes "0 \<le> block" and "block < 2 ^ 64"
  shows "combine_halves (fst (split_block block)) (snd (split_block block)) = block"
proof -
  have "push_bit 32 (take_bit 32 (drop_bit 32 block)) OR take_bit 32 block = take_bit 64 block"
    by (rule bit_eqI) (auto simp: bit_simps)
  moreover have "take_bit 64 block = block"
    using assms by (simp add: take_bit_int_eq_self_iff)
  ultimately show ?thesis
    by (simp add: combine_halves_def split_block_def Let_def mask32)
qed

lemma split_combine:
  assumes "halves32 (a, b)"
  shows "split_block (combine_halves a b) = (a, b)"
    and "0 \<le> combine_halves a b \<and> combine_halves a b < 2 ^ 64"
proof -
  have a: "take_bit 32 a = a" and b: "take_bit 32 b = b"
    using assms by (simp_all add: halves32_def take_bit_int_eq_self_iff)
  have hb: "m < 32" if "bit b m" for m
    using that b by (metis bit_take_bit_iff)
  have ha: "m < 32" if "bit a m" for m
    using that a by (metis bit_take_bit_iff)
  have 1: "take_bit 32 (drop_bit 32 (push_bit 32 a OR b)) = a"
    by (rule bit_eqI) (use ha hb in \<open>fastforce simp: bit_simps\<close>)
  have 2: "take_bit 32 (push_bit 32 a OR b) = b"
    by (rule bit_eqI) (use hb in \<open>auto simp: bit_simps\<close>)
  show "split_block (combine_halves a b) = (a, b)"
    by (simp only: split_block_def combine_halves_def Let_def mask32 1 2)
  have "take_bit 64 (push_bit 32 a OR b) = push_bit 32 a OR b"
    by (rule bit_eqI) (use ha hb in \<open>fastforce simp: bit_simps\<close>)
  then show "0 \<le> combine_halves a b \<and> combine_halves a b < 2 ^ 64"
    by (simp only: combine_halves_def take_bit_int_eq_self_iff)
qed

lemma toy_block_roundtrip:
  assumes "0 \<le> block" and "block < 2 ^ 64"
  shows "decrypt_block (encrypt_block block master_key) master_key = block"
proof -
  define rks where "rks = generate_round_keys master_key"
  define st0 where "st0 = split_block block"
  define fin where "fin = fold (toy_round rks) [0..<16] st0"
  have h0: "halves32 st0" unfolding st0_def by (rule split_block_range)
  have hfin: "halves32 fin"
    unfolding fin_def
    by (rule fold_invariant [where P = halves32]) (simp_all add: toy_round_range h0)
  obtain l r where fin: "fin = (l, r)" by (cases fin)
  have hsw: "halves32 (r, l)" using hfin by (simp add: fin halves32_def)
  have enc: "encrypt_block block master_key = combine_halves r l"
    using fin
    by (simp add: encrypt_block_def Let_def rks_def [symmetric] st0_def [symmetric]
        toy_round_def [symmetric] fin_def [symmetric])
  have bk: "fold (toy_round rks) (rev [0..<16]) (r, l) = prod.swap st0"
    using feistel_inverse [of "toy_round rks" "[0..<16]" st0] toy_round_swap
    by (simp add: fin_def [symmetric] fin)
  obtain l0 r0 where st0: "st0 = (l0, r0)" by (cases st0)
  have "decrypt_block (combine_halves r l) master_key = combine_halves l0 r0"
    using bk
    by (simp add: decrypt_block_def Let_def rks_def [symmetric] split_combine(1) [OF hsw]
        toy_round_def [symmetric] st0)
  also have "\<dots> = block"
    using combine_split [OF assms] by (simp add: st0_def [symmetric] st0)
  finally show ?thesis by (simp add: enc)
qed

lemma encrypt_block_range:
  "0 \<le> encrypt_block block master_key \<and> encrypt_block block master_key < 2 ^ 64"
proof -
  define rks where "rks = generate_round_keys master_key"
  define fin where "fin = fold (toy_round rks) [0..<16] (split_block block)"
  have hfin: "halves32 fin"
    unfolding fin_def
    by (rule fold_invariant [where P = halves32]) (simp_all add: toy_round_range split_block_range)
  obtain l r where fin: "fin = (l, r)" by (cases fin)
  have hsw: "halves32 (r, l)" using hfin by (simp add: fin halves32_def)
  have enc: "encrypt_block block master_key = combine_halves r l"
    using fin
    by (simp add: encrypt_block_def Let_def rks_def [symmetric]
        toy_round_def [symmetric] fin_def [symmetric])
  show ?thesis unfolding enc by (rule split_combine(2) [OF hsw])
qed

text \<open>
  Claim C2. For every 64-bit block and every master key (every integer, so
  every 64-bit one), decrypting the encrypted block gives the block back.
\<close>

theorem decrypt_encrypt_block:
  assumes "0 \<le> b" and "b < 2 ^ 64"
  shows "decrypt_block (encrypt_block b k) k = b"
  using assms by (rule toy_block_roundtrip)

theorem decrypt_encrypt_block_witness:
  "decrypt_block (encrypt_block 0xFFFFFFFFFFFFFFFF 0x0123456789ABCDEF) 0x0123456789ABCDEF
     = 0xFFFFFFFFFFFFFFFF"
  using decrypt_encrypt_block [of "0xFFFFFFFFFFFFFFFF" "0x0123456789ABCDEF"] by simp

subsection \<open>The text pipeline of lab2\<close>

lemma length_pad_text: "length (pad_text x) = (length x div 8 + (if length x mod 8 = 0 then 0 else 1)) * 8"
proof (cases "length x mod 8 = 0")
  case True
  then show ?thesis by (auto simp: pad_text_def)
next
  case False
  have "length x + (8 - length x mod 8) = (length x div 8 + 1) * 8"
    by presburger
  then show ?thesis
    using False by (simp add: pad_text_def Let_def)
qed

lemma roundtrip_text_eq: "roundtrip_text x k = unpad_text (pad_text x)"
proof -
  obtain blocks where b: "map_err unpack_be_Q (chunks 8 (pad_text x)) = Inr blocks"
      "list_all (\<lambda>b. 0 \<le> b \<and> b < 2 ^ 64) blocks"
      "map_err pack_be_Q blocks = Inr (chunks 8 (pad_text x))"
    using unpack_be_Q_chunks [OF length_pad_text] by blast
  have "map (\<lambda>block. decrypt_block block k) (map (\<lambda>block. encrypt_block block k) blocks) = blocks"
    using b(2) by (induction blocks) (simp_all add: toy_block_roundtrip)
  then show ?thesis
    by (simp add: roundtrip_text_def encrypt_text_def decrypt_text_def text_to_blocks_def b(1)
        blocks_to_text_def b(3) concat_chunks)
qed

text \<open>
  Claim C3. The claim is that every text comes back from
  \<^verbatim>\<open>decrypt_text(encrypt_text(x, k), k)\<close>. The code does not do that on the
  text \<^verbatim>\<open>abcdefg\x07\<close>: its 8 bytes are a whole block, so \<^verbatim>\<open>text_to_blocks\<close>
  adds no padding, and \<^verbatim>\<open>blocks_to_text\<close> takes the last byte 7 for a padding
  length and removes seven bytes that were never padding. What comes back is
  the text \<^verbatim>\<open>a\<close>.
\<close>

theorem roundtrip_text_aligned_loses_bytes:
  "roundtrip_text [0x61, 0x62, 0x63, 0x64, 0x65, 0x66, 0x67, 0x07] 0x0123456789ABCDEF = Inr [0x61]"
  by (simp add: roundtrip_text_eq pad_text_def unpad_text_def slice_to_neg_def decode_utf8_def)

text \<open>
  Two more texts that do not come back: the empty text is encrypted to no
  block at all and \<^verbatim>\<open>bytes_data[-1]\<close> raises IndexError on the way back; an
  8-byte text ending in the byte 0 comes back as the empty text.
\<close>

lemma roundtrip_text_empty: "roundtrip_text [] k = Inl IndexError"
  by (simp add: roundtrip_text_eq pad_text_def unpad_text_def)

lemma roundtrip_text_trailing_nul:
  "roundtrip_text [0x61, 0x62, 0x63, 0x64, 0x65, 0x66, 0x67, 0x00] k = Inr []"
  by (simp add: roundtrip_text_eq pad_text_def unpad_text_def slice_to_neg_def decode_utf8_def)

text \<open>
  The texts that the pipeline does give back include every text whose encoding
  is not a whole number of blocks.
\<close>

lemma roundtrip_text_unaligned_or_large_last:
  assumes "utf8_valid x"
    and "length x mod 8 \<noteq> 0 \<or> (x \<noteq> [] \<and> 8 \<le> unat (last x))"
  shows "roundtrip_text x k = Inr x"
proof (cases "length x mod 8 = 0")
  case True
  then have "x \<noteq> []" "8 \<le> unat (last x)" using assms(2) by auto
  moreover have "pad_text x = x" using True by (simp add: pad_text_def)
  ultimately show ?thesis
    using assms(1) by (simp add: roundtrip_text_eq unpad_text_def Let_def decode_utf8_def)
next
  case False
  define p where "p = 8 - length x mod 8"
  have p: "0 < p" "p < 8" using False by (simp_all add: p_def)
  have pt: "pad_text x = x @ replicate p (of_nat p)"
    using p by (simp add: pad_text_def Let_def p_def)
  have lst: "unat (last (x @ replicate p (of_nat p :: byte))) = p"
    using p by (simp add: unat_pad_byte)
  have ne: "x @ replicate p (of_nat p :: byte) \<noteq> []" using p by auto
  have st: "slice_to_neg p (x @ replicate p (of_nat p :: byte)) = x"
    using p by (simp add: slice_to_neg_def)
  show ?thesis
    unfolding roundtrip_text_eq pt unpad_text_def Let_def lst st
    using ne p assms(1) by (simp add: decode_utf8_def)
qed

subsection \<open>The round keys of lab2\<close>

lemma rotl64_int:
  assumes "0 \<le> k" and "k < 2 ^ 64" and "i < 64"
  shows "take_bit 64 (push_bit i k OR drop_bit (64 - i) k)
           = uint (word_rotl i (word_of_int k :: 64 word))"
proof (rule bit_eqI)
  fix n
  have k: "take_bit 64 k = k" using assms by (simp add: take_bit_int_eq_self_iff)
  have hk: "m < 64" if "bit k m" for m
    using that k by (metis bit_take_bit_iff)
  have L: "bit (take_bit 64 (push_bit i k OR drop_bit (64 - i) k)) n
      \<longleftrightarrow> n < 64 \<and> ((i \<le> n \<and> bit k (n - i)) \<or> bit k (64 - i + n))"
    by (simp add: bit_take_bit_iff bit_or_iff bit_push_bit_iff bit_drop_bit_eq
        conj_disj_distribL)
  have R: "bit (uint (word_rotl i (word_of_int k :: 64 word))) n
      \<longleftrightarrow> n < 64 \<and> bit k ((n + (64 - i)) mod 64)"
    using assms(3) by (simp add: bit_uint_iff bit_word_rotl_iff bit_word_of_int_iff)
  show "bit (take_bit 64 (push_bit i k OR drop_bit (64 - i) k)) n
      = bit (uint (word_rotl i (word_of_int k :: 64 word))) n"
  proof (cases "i \<le> n")
    case True
    have e: "n + (64 - i) = 64 + (n - i)" using True assms(3) by linarith
    have m: "(n + (64 - i)) mod 64 = n - i" if "n < 64"
    proof -
      have "n - i < 64" using that by linarith
      then have "(64 + (n - i)) mod 64 = n - i" by (simp only: mod_add_self1 mod_less)
      then show ?thesis by (simp only: e)
    qed
    have "64 \<le> 64 - i + n" using True assms(3) by linarith
    then have "\<not> bit k (64 - i + n)" using hk [of "64 - i + n"] by linarith
    then show ?thesis unfolding L R using True m by (cases "n < 64") simp_all
  next
    case False
    have e: "n + (64 - i) = 64 - i + n" by (rule add.commute)
    have "n + (64 - i) < 64" using False assms(3) by linarith
    then have m: "(n + (64 - i)) mod 64 = 64 - i + n" by (simp only: mod_less e)
    show ?thesis unfolding L R m using False by (cases "n < 64") simp_all
  qed
qed

text \<open>
  Claim C8. For every 64-bit master key the schedule has exactly 16 entries,
  and entry \<open>i\<close> is the low 32 bits of the key rotated left by \<open>i\<close> bits in
  64 bits, XORed with \<open>i * 0x0123456789ABCDEF\<close> truncated to 64 bits.
\<close>

theorem generate_round_keys_spec:
  assumes "0 \<le> k" and "k < 2 ^ 64"
  shows "length (generate_round_keys k) = 16
         \<and> (\<forall>i<16. generate_round_keys k ! i = spec_round_key k i)"
proof (intro conjI allI impI)
  show "length (generate_round_keys k) = 16" by (simp add: generate_round_keys_def)
next
  fix i :: nat assume i: "i < 16"
  then have i64: "i < 64" by simp
  let ?C = "0x0123456789ABCDEF :: int"
  have nth: "generate_round_keys k ! i = round_key_at k i"
    using i by (simp add: generate_round_keys_def del: upt_Suc)
  have w: "uint (word_of_nat i * 0x0123456789ABCDEF :: 64 word) = take_bit 64 (int i * ?C)"
  proof -
    have "word_of_nat i * 0x0123456789ABCDEF = (word_of_int (int i * ?C) :: 64 word)"
      by simp
    then show ?thesis by (simp only: uint_word_of_int_eq) simp
  qed
  have "round_key_at k i
      = take_bit 32 (take_bit 64 (push_bit i k OR drop_bit (64 - i) k) XOR int i * ?C)"
    by (simp only: round_key_at_def Let_def mask32 mask64)
  also have "\<dots> = take_bit 32 (uint (word_rotl i (word_of_int k :: 64 word)) XOR int i * ?C)"
    by (simp only: rotl64_int [OF assms i64])
  also have "\<dots> = take_bit 32 (uint (word_rotl i (word_of_int k :: 64 word))
        XOR take_bit 64 (int i * ?C))"
    by (rule bit_eqI) (auto simp: bit_simps)
  also have "\<dots> = spec_round_key k i"
    by (simp only: spec_round_key_def uint_xor w)
  finally show "generate_round_keys k ! i = spec_round_key k i"
    by (simp only: nth)
qed

theorem generate_round_keys_spec_witness:
  "length (generate_round_keys 0x0123456789ABCDEF) = 16
   \<and> generate_round_keys 0x0123456789ABCDEF ! 15 = spec_round_key 0x0123456789ABCDEF 15"
  using generate_round_keys_spec [of "0x0123456789ABCDEF"] by simp

subsection \<open>The substitution step of the GOST round\<close>

lemma SBOX_rows:
  "length SBOX = 8 \<and> list_all (\<lambda>row. sort row = [0..15]) SBOX"
  by (simp add: SBOX_def upto_rec1)

lemma nibble_mask: "(x::int) AND 0xF = take_bit 4 x"
  by (simp add: take_bit_eq_mask mask_eq_exp_minus_1)

lemma SBOX_row:
  assumes "j < 8"
  shows "sort (SBOX ! j) = [0..15]"
  using SBOX_rows assms by (simp add: list_all_length)

lemma SBOX_row_props:
  assumes "j < 8"
  shows "distinct (SBOX ! j)" and "length (SBOX ! j) = 16" and "set (SBOX ! j) = {0..15}"
proof -
  have s: "sort (SBOX ! j) = [0..15]" by (rule SBOX_row [OF assms])
  have "distinct (sort (SBOX ! j))" unfolding s by simp
  then show "distinct (SBOX ! j)" by simp
  have "length (sort (SBOX ! j)) = 16" unfolding s by simp
  then show "length (SBOX ! j) = 16" by simp
  have "set (sort (SBOX ! j)) = {0..15}" unfolding s by simp
  then show "set (SBOX ! j) = {0..15}" by simp
qed


lemma sbox_step_alt:
  "sbox_step j s =
     (s AND NOT (push_bit (28 - j * 4) (mask 4)))
       OR push_bit (28 - j * 4) (SBOX ! j ! nat (take_bit 4 (drop_bit (28 - j * 4) s)))"
  unfolding sbox_step_def nibble_mask by (simp add: mask_eq_exp_minus_1)

lemma SBOX_entry:
  assumes "j < 8"
  shows "take_bit 4 (SBOX ! j ! nat (take_bit 4 x)) = SBOX ! j ! nat (take_bit 4 x)"
proof -
  have "take_bit 4 x < 2 ^ 4" by (rule take_bit_int_less_exp)
  then have "nat (take_bit 4 x) < 16" by simp
  then have "SBOX ! j ! nat (take_bit 4 x) \<in> set (SBOX ! j)"
    using SBOX_row_props(2) [OF assms] by simp
  then have "0 \<le> SBOX ! j ! nat (take_bit 4 x) \<and> SBOX ! j ! nat (take_bit 4 x) \<le> 15"
    unfolding SBOX_row_props(3) [OF assms] by simp
  then show ?thesis by (simp add: take_bit_int_eq_self_iff)
qed

lemma nibble_replace:
  assumes "take_bit 4 v = (v::int)"
  shows "take_bit 4 (drop_bit sh ((s AND NOT (push_bit sh (mask 4))) OR push_bit sh v)) = v"
    and "((s AND NOT (push_bit sh (mask 4))) OR push_bit sh v) AND NOT (push_bit sh (mask 4))
           = s AND NOT (push_bit sh (mask 4))"
proof -
  have hv: "m < 4" if "bit v m" for m
    using that assms by (metis bit_take_bit_iff)
  have "take_bit 4 (drop_bit sh ((s AND NOT (push_bit sh (mask 4))) OR push_bit sh v))
      = take_bit 4 v"
    by (rule bit_eqI) (auto simp: bit_simps)
  then show "take_bit 4 (drop_bit sh ((s AND NOT (push_bit sh (mask 4))) OR push_bit sh v)) = v"
    by (simp only: assms)
  show "((s AND NOT (push_bit sh (mask 4))) OR push_bit sh v) AND NOT (push_bit sh (mask 4))
           = s AND NOT (push_bit sh (mask 4))"
    by (rule bit_eqI) (use hv in \<open>auto simp: bit_simps\<close>)
qed

lemma nibble_rebuild:
  "(s AND NOT (push_bit sh (mask 4))) OR push_bit sh (take_bit 4 (drop_bit sh s)) = (s::int)"
  by (rule bit_eqI) (auto simp: bit_simps)

lemma sbox_step_inj:
  assumes "j < 8" and "sbox_step j s = sbox_step j t"
  shows "s = t"
proof -
  let ?sh = "28 - j * 4"
  let ?ns = "take_bit 4 (drop_bit ?sh s)" and ?nt = "take_bit 4 (drop_bit ?sh t)"
  let ?vs = "SBOX ! j ! nat ?ns" and ?vt = "SBOX ! j ! nat ?nt"
  have vs: "take_bit 4 ?vs = ?vs" and vt: "take_bit 4 ?vt = ?vt"
    by (rule SBOX_entry [OF assms(1)])+
  have "take_bit 4 (drop_bit ?sh (sbox_step j s)) = ?vs"
    unfolding sbox_step_alt by (rule nibble_replace(1) [OF vs])
  moreover have "take_bit 4 (drop_bit ?sh (sbox_step j t)) = ?vt"
    unfolding sbox_step_alt by (rule nibble_replace(1) [OF vt])
  ultimately have v: "?vs = ?vt" using assms(2) by simp
  have "nat ?ns < 16" "nat ?nt < 16"
    using take_bit_int_less_exp [of 4 "drop_bit ?sh s"] take_bit_int_less_exp [of 4 "drop_bit ?sh t"]
    by simp_all
  then have "nat ?ns = nat ?nt"
    using v SBOX_row_props(1,2) [OF assms(1)] by (simp add: nth_eq_iff_index_eq)
  then have n: "?ns = ?nt" by (simp add: eq_nat_nat_iff)
  have "sbox_step j s AND NOT (push_bit ?sh (mask 4)) = s AND NOT (push_bit ?sh (mask 4))"
    unfolding sbox_step_alt by (rule nibble_replace(2) [OF vs])
  moreover have "sbox_step j t AND NOT (push_bit ?sh (mask 4)) = t AND NOT (push_bit ?sh (mask 4))"
    unfolding sbox_step_alt by (rule nibble_replace(2) [OF vt])
  ultimately have r: "s AND NOT (push_bit ?sh (mask 4)) = t AND NOT (push_bit ?sh (mask 4))"
    using assms(2) by simp
  have "s = (s AND NOT (push_bit ?sh (mask 4))) OR push_bit ?sh ?ns"
    by (simp only: nibble_rebuild)
  also have "\<dots> = (t AND NOT (push_bit ?sh (mask 4))) OR push_bit ?sh ?nt"
    by (simp only: r n)
  also have "\<dots> = t" by (simp only: nibble_rebuild)
  finally show ?thesis .
qed

lemma sbox_step_range:
  assumes "j < 8" and "0 \<le> s" and "s < 2 ^ 32"
  shows "0 \<le> sbox_step j s \<and> sbox_step j s < 2 ^ 32"
proof -
  let ?sh = "28 - j * 4"
  let ?v = "SBOX ! j ! nat (take_bit 4 (drop_bit ?sh s))"
  have v: "take_bit 4 ?v = ?v" by (rule SBOX_entry [OF assms(1)])
  have hv: "m < 4" if "bit ?v m" for m
    using that v by (metis bit_take_bit_iff)
  have s: "take_bit 32 s = s" using assms(2,3) by (simp add: take_bit_int_eq_self_iff)
  have hs: "m < 32" if "bit s m" for m
    using that s by (metis bit_take_bit_iff)
  have "take_bit 32 (sbox_step j s) = sbox_step j s"
    unfolding sbox_step_alt
  proof (rule bit_eqI)
    fix n
    show "bit (take_bit 32 (s AND NOT (push_bit ?sh (mask 4)) OR push_bit ?sh ?v)) n
        = bit (s AND NOT (push_bit ?sh (mask 4)) OR push_bit ?sh ?v) n"
    proof (cases "n < 32")
      case True
      then show ?thesis by (simp only: bit_take_bit_iff simp_thms)
    next
      case False
      have "\<not> bit s n" using hs [of n] False by blast
      moreover have "\<not> bit ?v (n - ?sh)" using hv [of "n - ?sh"] False by linarith
      ultimately show ?thesis using False
        by (simp add: bit_take_bit_iff bit_or_iff bit_and_iff bit_push_bit_iff)
    qed
  qed
  then show ?thesis by (simp only: take_bit_int_eq_self_iff)
qed

lemma fold_inj:
  assumes "\<And>j s t. j \<in> set js \<Longrightarrow> f j s = f j t \<Longrightarrow> s = t"
    and "fold f js s = fold f js t"
  shows "s = t"
  using assms
proof (induction js arbitrary: s t)
  case Nil
  then show ?case by simp
next
  case (Cons j js)
  have "fold f js (f j s) = fold f js (f j t)" using Cons.prems(2) by simp
  then have "f j s = f j t" using Cons.IH Cons.prems(1) by (metis list.set_intros(2))
  then show ?case using Cons.prems(1) by (metis list.set_intros(1))
qed

text \<open>
  Claim C10. The table has 8 rows and each row, sorted, is the list
  \<open>0, 1, ..., 15\<close>: every 4-bit value occurs exactly once in it. The
  substitution loop of the round (the same in \<^verbatim>\<open>gost_encrypt_block\<close> and
  \<^verbatim>\<open>gost_decrypt_block\<close>) is a bijection on the unsigned 32-bit values.
\<close>

theorem sbox_bijective:
  "length SBOX = 8 \<and> list_all (\<lambda>row. sort row = [0..15]) SBOX
   \<and> bij_betw sbox_loop {0..<2 ^ 32} {0..<2 ^ 32}"
proof -
  have inj: "inj_on sbox_loop {0..<2 ^ 32}"
  proof (rule inj_onI)
    fix s t :: int assume "sbox_loop s = sbox_loop t"
    then have "fold sbox_step [0..<8] s = fold sbox_step [0..<8] t"
      by (simp only: sbox_loop_def)
    then show "s = t"
      by (rule fold_inj [rotated]) (simp add: sbox_step_inj del: upt_Suc)
  qed
  have rng: "sbox_loop s \<in> {0..<2 ^ 32}" if "s \<in> {0..<2 ^ 32}" for s
  proof -
    have "0 \<le> fold sbox_step js s \<and> fold sbox_step js s < 2 ^ 32"
      if "\<forall>j\<in>set js. j < 8" for js
      using that \<open>s \<in> {0..<2 ^ 32}\<close>
    proof (induction js arbitrary: s)
      case Nil
      then show ?case by simp
    next
      case (Cons j js)
      have "sbox_step j s \<in> {0..<2 ^ 32}"
        using sbox_step_range [of j s] Cons.prems by simp
      then show ?case using Cons by simp
    qed
    then show ?thesis by (simp add: sbox_loop_def del: upt_Suc)
  qed
  have "sbox_loop ` {0..<2 ^ 32} = {0..<2 ^ 32}"
    by (rule endo_inj_surj) (use inj rng in auto)
  then have "bij_betw sbox_loop {0..<2 ^ 32} {0..<2 ^ 32}"
    using inj by (simp add: bij_betw_def)
  then show ?thesis using SBOX_rows by simp
qed

end
